theory Spec2Isabelle
  imports Main "HOL-Library.Word"
begin

unbundle bit_operations_syntax

section \<open>Buffers\<close>

text \<open>
  The development embeds the decode loop of \<^verbatim>\<open>ext/libde265/libde265-dec.c\<close>:
  the in-place rewriting of length-prefixed NAL units to start codes, the parse cycle
  with its backlog flag, the geometry check of \<^verbatim>\<open>_gst_libde265_image_available\<close>,
  the plane copy of \<^verbatim>\<open>gst_libde265_dec_handle_frame\<close> and the flush callback.
  Buffers are lists of bytes, pointers into a buffer are integer offsets from its
  start, and every access outside a buffer is the explicit result \<open>OutOfBounds\<close>.
\<close>

type_synonym byte = "8 word"

datatype fault = OutOfBounds

subsection \<open>The byte-order macros\<close>

text \<open>
  \<^verbatim>\<open>READ_BE32(x)\<close> is
  \<^verbatim>\<open>((uint32_t)x[0] << 24) | (x[1] << 16) | (x[2] << 8) | x[3]\<close>, an unsigned 32-bit
  value; \<^verbatim>\<open>WRITE_BE32(p, d)\<close> stores the four bytes of \<open>d\<close>, lowest byte last.
\<close>

definition READ_BE32 :: "byte list \<Rightarrow> nat \<Rightarrow> 32 word" where
  "READ_BE32 x p =
     (push_bit 24 (ucast (x ! p)) OR push_bit 16 (ucast (x ! (p + 1)))
        OR push_bit 8 (ucast (x ! (p + 2))) OR ucast (x ! (p + 3)))"

definition WRITE_BE32 :: "byte list \<Rightarrow> nat \<Rightarrow> 32 word \<Rightarrow> byte list" where
  "WRITE_BE32 x p d =
     x[p + 3 := ucast d, p + 2 := ucast (drop_bit 8 d),
       p + 1 := ucast (drop_bit 16 d), p := ucast (drop_bit 24 d)]"

subsection \<open>The length-field rewriting loop\<close>

text \<open>
  \<^verbatim>\<open>
  uint8_t *start_data = frame_data;
  while (start_data + 4 <= end_data) {
    int nal_size = READ_BE32 (start_data);
    WRITE_BE32 (start_data, 0x00000001);
    start_data += 4 + nal_size;
  }
  \<close>
  \<open>start_data\<close> is the offset of the pointer from \<open>frame_data\<close>, an integer that can
  become negative: \<open>nal_size\<close> is a signed 32-bit \<open>int\<close>, so a length field with its
  top bit set is a negative number and moves the pointer backwards. \<open>4 + nal_size\<close>
  is computed in 32 bits (two's complement wrap-around for the four values where the
  sum leaves the range of \<open>int\<close>) and then added to the pointer with its sign. An
  iteration that starts before the first byte of the buffer reads and writes memory
  that is not part of the buffer: the model stops there with \<open>OutOfBounds\<close>.
  The third component counts the executions of \<^verbatim>\<open>WRITE_BE32\<close>; it is a counter of
  the model, the C code has no such variable.
\<close>

definition high_bytes :: "byte list \<Rightarrow> nat" where
  "high_bytes buf = length (filter (\<lambda>b. 127 \<le> b) buf)"

lemma length_WRITE_BE32 [simp]: "length (WRITE_BE32 x p d) = length x"
  by (simp add: WRITE_BE32_def)

lemma WRITE_BE32_start_code:
  "WRITE_BE32 x p 1 = x[p + 3 := 1, p + 2 := 0, p + 1 := 0, p := 0]"
  by (simp add: WRITE_BE32_def drop_bit_eq_div)

lemma high_bytes_pos: "i < length xs \<Longrightarrow> 127 \<le> xs ! i \<Longrightarrow> 0 < high_bytes xs"
  unfolding high_bytes_def
  by (metis (mono_tags, lifting) filter_empty_conv length_greater_0_conv nth_mem)

lemma high_bytes_update:
  "v < 127 \<Longrightarrow> high_bytes (xs[i := v]) =
     high_bytes xs - (if i < length xs \<and> 127 \<le> xs ! i then 1 else 0)"
proof (induction xs arbitrary: i)
  case Nil
  then show ?case by (simp add: high_bytes_def)
next
  case (Cons x xs)
  show ?case
  proof (cases i)
    case 0
    with Cons.prems show ?thesis by (auto simp: high_bytes_def)
  next
    case (Suc j)
    have "j < length xs \<Longrightarrow> 127 \<le> xs ! j \<Longrightarrow> 0 < high_bytes xs"
      by (rule high_bytes_pos)
    with Suc Cons.IH [OF Cons.prems, of j] show ?thesis
      by (auto simp: high_bytes_def)
  qed
qed

lemma high_bytes_WRITE_BE32:
  "high_bytes (WRITE_BE32 x p 1) \<le> high_bytes x"
  "p < length x \<Longrightarrow> 127 \<le> x ! p \<Longrightarrow> high_bytes (WRITE_BE32 x p 1) < high_bytes x"
proof -
  let ?y = "x[p + 3 := 1, p + 2 := 0, p + 1 := 0]"
  have y: "high_bytes ?y \<le> high_bytes x"
    by (simp add: high_bytes_update)
  have w: "WRITE_BE32 x p 1 = ?y[p := 0]"
    by (simp add: WRITE_BE32_start_code)
  show "high_bytes (WRITE_BE32 x p 1) \<le> high_bytes x"
    using y by (simp add: w high_bytes_update)
  assume p: "p < length x" "127 \<le> x ! p"
  then have "?y ! p = x ! p" by simp
  with p have "high_bytes (?y[p := 0]) = high_bytes ?y - 1" "0 < high_bytes ?y"
    using high_bytes_pos [of p ?y] by (simp_all add: high_bytes_update)
  with y show "high_bytes (WRITE_BE32 x p 1) < high_bytes x"
    unfolding w by linarith
qed

text \<open>The value of a length field as an unsigned number, and of the step
  \<open>4 + nal_size\<close> as the signed number the pointer moves by.\<close>

lemma byte_bit: "bit (a::byte) n \<Longrightarrow> n < 8"
  by (auto dest: bit_imp_le_length)

lemma be_or1:
  "(push_bit 8 (ucast (c::byte)) OR ucast (d::byte) :: 32 word)
     = push_bit 8 (ucast c) + ucast d"
  by (rule disjunctive_add_eq_or [symmetric])
     (auto simp: bit_eq_iff bit_simps dest!: byte_bit)

lemma be_or2:
  "(push_bit 16 (ucast (b::byte)) OR (push_bit 8 (ucast (c::byte)) OR ucast (d::byte))
      :: 32 word) = push_bit 16 (ucast b) + (push_bit 8 (ucast c) OR ucast d)"
  by (rule disjunctive_add_eq_or [symmetric])
     (auto simp: bit_eq_iff bit_simps dest!: byte_bit)

lemma be_or3:
  "(push_bit 24 (ucast (a::byte)) OR (push_bit 16 (ucast (b::byte))
      OR (push_bit 8 (ucast (c::byte)) OR ucast (d::byte))) :: 32 word)
     = push_bit 24 (ucast a) + (push_bit 16 (ucast b) OR (push_bit 8 (ucast c) OR ucast d))"
  by (rule disjunctive_add_eq_or [symmetric])
     (auto simp: bit_eq_iff bit_simps dest!: byte_bit)

lemma unat_byte: "unat (a::byte) < 256"
  using unsigned_less [of a, where 'a = nat] by simp

lemma unat_READ_BE32:
  "unat (READ_BE32 x p) =
     unat (x ! p) * 16777216 + unat (x ! (p + 1)) * 65536
       + unat (x ! (p + 2)) * 256 + unat (x ! (p + 3))"
proof -
  let ?n = "unat (x ! p) * 16777216 + unat (x ! (p + 1)) * 65536
       + unat (x ! (p + 2)) * 256 + unat (x ! (p + 3))"
  have "READ_BE32 x p = word_of_nat ?n"
    unfolding READ_BE32_def
    apply (subst be_or3)
    apply (subst be_or2)
    apply (subst be_or1)
    apply (simp add: push_bit_eq_mult)
    done
  moreover have "?n < 2 ^ 32"
    using unat_byte [of "x ! p"] unat_byte [of "x ! (p + 1)"]
      unat_byte [of "x ! (p + 2)"] unat_byte [of "x ! (p + 3)"] by simp
  ultimately show ?thesis by (simp only: unat_of_nat) simp
qed

lemma sint_32: "sint (w :: 32 word) = (uint w + 2147483648) mod 4294967296 - 2147483648"
  by (simp add: sint_uint signed_take_bit_eq_take_bit_shift take_bit_eq_mod)

lemma uint_4_plus: "uint (4 + w :: 32 word) = (4 + uint w) mod 4294967296"
  by (simp add: uint_word_ariths)

lemma wrap_once: "m \<le> x \<Longrightarrow> x < 2 * m \<Longrightarrow> x mod m = x - (m::int)"
  by (rule int_mod_pos_eq [where q = 1]) simp_all

lemma wrap_small:
  "0 \<le> u \<Longrightarrow> u < 2147483644 \<Longrightarrow>
     ((4 + u) mod 4294967296 + 2147483648) mod 4294967296 - 2147483648 = 4 + (u::int)"
  by simp

lemma wrap_large:
  "2147483644 \<le> u \<Longrightarrow> u < 4294967296 \<Longrightarrow>
     ((4 + u) mod 4294967296 + 2147483648) mod 4294967296 - 2147483648
       = 4 + (u::int) - 4294967296"
proof (cases "u < 4294967292")
  case True
  assume "2147483644 \<le> u"
  with True have "(4 + u) mod 4294967296 = 4 + u" by simp
  moreover have "(4 + u + 2147483648) mod 4294967296 = 4 + u + 2147483648 - 4294967296"
    using True \<open>2147483644 \<le> u\<close> by (intro wrap_once) simp_all
  ultimately show ?thesis by simp
next
  case False
  assume "u < 4294967296"
  with False have "(4 + u) mod 4294967296 = 4 + u - 4294967296"
    by (intro wrap_once) simp_all
  then show ?thesis using False \<open>u < 4294967296\<close> by simp
qed

lemma sint_step_small:
  "unat (w :: 32 word) < 2147483644 \<Longrightarrow> sint (4 + w) = 4 + int (unat w)"
proof -
  assume "unat w < 2147483644"
  then have "int (unat w) < 2147483644" by linarith
  then have "uint w < 2147483644" by simp
  then have "((4 + uint w) mod 4294967296 + 2147483648) mod 4294967296 - 2147483648
      = 4 + uint w"
    by (intro wrap_small) simp_all
  then have "sint (4 + w) = 4 + uint w"
    by (simp only: sint_32 uint_4_plus)
  then show ?thesis by simp
qed

lemma sint_step_large:
  "2147483644 \<le> unat (w :: 32 word) \<Longrightarrow> sint (4 + w) = 4 + int (unat w) - 4294967296"
proof -
  assume "2147483644 \<le> unat w"
  then have "2147483644 \<le> int (unat w)" by linarith
  then have "2147483644 \<le> uint w" by simp
  moreover have "uint w < 4294967296" using uint_bounded [of w] by simp
  ultimately have
    "((4 + uint w) mod 4294967296 + 2147483648) mod 4294967296 - 2147483648
      = 4 + uint w - 4294967296"
    by (intro wrap_large)
  then have "sint (4 + w) = 4 + uint w - 4294967296"
    by (simp only: sint_32 uint_4_plus)
  then show ?thesis by simp
qed

function reframe_loop :: "byte list \<Rightarrow> int \<Rightarrow> nat \<Rightarrow> fault + (byte list \<times> int \<times> nat)" where
  "reframe_loop buf start_data n =
     (if start_data + 4 \<le> int (length buf) then
        (if start_data < 0 then Inl OutOfBounds
         else reframe_loop (WRITE_BE32 buf (nat start_data) 1)
                (start_data + sint (4 + READ_BE32 buf (nat start_data))) (Suc n))
      else Inr (buf, start_data, n))"
  by pat_completeness auto

lemma high_byte_of_large_length:
  assumes "2130706432 \<le> unat (READ_BE32 x p)"
  shows "127 \<le> x ! p"
proof (rule ccontr)
  assume "\<not> 127 \<le> x ! p"
  then have "x ! p < 127" by simp
  then have "unat (x ! p) < 127" by (simp add: word_less_nat_alt)
  then have "unat (READ_BE32 x p) < 2130706432"
    using unat_byte [of "x ! (p + 1)"] unat_byte [of "x ! (p + 2)"]
      unat_byte [of "x ! (p + 3)"]
    by (simp add: unat_READ_BE32)
  with assms show False by simp
qed

termination reframe_loop
proof (relation "measures [\<lambda>(buf, p, n). high_bytes buf, \<lambda>(buf, p, n). nat (int (length buf) - p)]")
  fix buf :: "byte list" and start_data :: int and n :: nat
  assume a: "start_data + 4 \<le> int (length buf)" "\<not> start_data < 0"
  let ?p = "nat start_data"
  let ?w = "READ_BE32 buf ?p"
  show "((WRITE_BE32 buf ?p 1, start_data + sint (4 + ?w), Suc n), (buf, start_data, n))
      \<in> measures [\<lambda>(buf, p, n). high_bytes buf, \<lambda>(buf, p, n). nat (int (length buf) - p)]"
  proof (cases "unat ?w < 2130706432")
    case True
    then have "sint (4 + ?w) = 4 + int (unat ?w)" by (intro sint_step_small) simp
    moreover have "0 \<le> int (unat ?w)" by simp
    ultimately have "0 < sint (4 + ?w)" by linarith
    with a high_bytes_WRITE_BE32(1) [of buf ?p] show ?thesis
      by (auto simp: le_less)
  next
    case False
    then have "127 \<le> buf ! ?p" by (intro high_byte_of_large_length) simp
    moreover have "?p < length buf" using a by linarith
    ultimately have "high_bytes (WRITE_BE32 buf ?p 1) < high_bytes buf"
      by (intro high_bytes_WRITE_BE32(2))
    then show ?thesis by simp
  qed
qed simp

declare reframe_loop.simps [simp del]


section \<open>The decode engine and the framework\<close>

text \<open>
  libde265 and the GStreamer base class are used by the element, they are not part of
  the repository. The engine is a context holding the queue of decoded pictures (oldest
  first), the queue of warnings and an internal state the element never looks at. A
  decoded picture is what the accessors of libde265 tell about it: for each of its
  three planes the width, the height, the stride and the bytes.
\<close>

datatype de265_error =
    DE265_OK
  | DE265_ERROR_IMAGE_BUFFER_FULL
  | DE265_ERROR_WAITING_FOR_INPUT_DATA
  | DE265_ERROR_OTHER nat

record image_plane =
  plane_width :: int
  plane_height :: int
  plane_stride :: int
  plane_data :: "byte list"

record de265_image =
  plane0 :: image_plane
  plane1 :: image_plane
  plane2 :: image_plane

record 'i de265_decoder_context =
  pictures :: "de265_image list"
  warnings :: "de265_error list"
  internal :: 'i

definition image_channel :: "de265_image \<Rightarrow> nat \<Rightarrow> image_plane" where
  "image_channel img channel =
     (if channel = 0 then plane0 img else if channel = 1 then plane1 img else plane2 img)"

definition de265_get_image_width :: "de265_image \<Rightarrow> nat \<Rightarrow> int" where
  "de265_get_image_width img channel = plane_width (image_channel img channel)"

definition de265_get_image_height :: "de265_image \<Rightarrow> nat \<Rightarrow> int" where
  "de265_get_image_height img channel = plane_height (image_channel img channel)"

text \<open>\<^verbatim>\<open>de265_get_image_plane(img, channel, &stride)\<close>: the plane's bytes and its stride.\<close>

definition de265_get_image_plane :: "de265_image \<Rightarrow> nat \<Rightarrow> byte list \<times> int" where
  "de265_get_image_plane img channel =
     (plane_data (image_channel img channel), plane_stride (image_channel img channel))"

text \<open>
  Modelled from the spec: \<^verbatim>\<open>de265_peek_next_picture\<close>, \<^verbatim>\<open>de265_get_next_picture\<close> and
  \<^verbatim>\<open>de265_get_warning\<close> are functions of libde265, whose code is not in the
  repository. Section 4.2 gives them as the non-destructive and the destructive read
  of the oldest decoded picture, if any, and the retrieval of the next diagnostic
  code, \<^verbatim>\<open>DE265_OK\<close> once none remains.
\<close>

definition de265_peek_next_picture :: "'i de265_decoder_context \<Rightarrow> de265_image option" where
  "de265_peek_next_picture c = (case pictures c of [] \<Rightarrow> None | img # _ \<Rightarrow> Some img)"

definition de265_get_next_picture ::
  "'i de265_decoder_context \<Rightarrow> de265_image option \<times> 'i de265_decoder_context" where
  "de265_get_next_picture c =
     (case pictures c of [] \<Rightarrow> (None, c) | img # rest \<Rightarrow> (Some img, c\<lparr>pictures := rest\<rparr>))"

definition de265_get_warning ::
  "'i de265_decoder_context \<Rightarrow> de265_error \<times> 'i de265_decoder_context" where
  "de265_get_warning c =
     (case warnings c of [] \<Rightarrow> (DE265_OK, c) | w # rest \<Rightarrow> (w, c\<lparr>warnings := rest\<rparr>))"

text \<open>
  What \<^verbatim>\<open>de265_push_data\<close> and \<^verbatim>\<open>de265_decode\<close> do to a context is the engine's
  business: both are parameters of the parse cycle.
\<close>

record 'i engine =
  de265_push_data ::
    "'i de265_decoder_context \<Rightarrow> byte list \<Rightarrow> de265_error \<times> 'i de265_decoder_context"
  de265_decode :: "'i de265_decoder_context \<Rightarrow> de265_error \<times> 'i de265_decoder_context"

datatype GstFlowReturn =
    GST_FLOW_OK
  | GST_FLOW_ERROR
  | GST_VIDEO_DECODER_FLOW_NEED_DATA
  | GST_FLOW_NOT_NEGOTIATED
  | GST_FLOW_FLUSHING
  | GST_FLOW_EOS

text \<open>
  What the framework answers during one callback: whether the input and the output
  buffer can be mapped, the result and the buffer of
  \<^verbatim>\<open>gst_video_decoder_allocate_output_frame\<close>, and the result of
  \<^verbatim>\<open>gst_video_decoder_finish_frame\<close>.
\<close>

record framework =
  input_map_ok :: bool
  alloc_ret :: GstFlowReturn
  output_buffer :: "byte list"
  output_map_ok :: bool
  finish_ret :: GstFlowReturn

section \<open>The element\<close>

datatype GstLibde265DecMode = GST_TYPE_LIBDE265_DEC_PACKETIZED | GST_TYPE_LIBDE265_DEC_RAW

datatype stream_error = OverflowInInputData | ErrorWhileDecoding de265_error

text \<open>
  What the element does to the outside, in order: the data pushed to the engine, the
  warnings and errors posted on the bus, the output state negotiated (width, height
  and the frame rate when it is overridden), the calls of
  \<^verbatim>\<open>gst_video_decoder_have_frame\<close> (with the dimensions of the picture that is pending
  at the call) and the output buffers finished.
\<close>

datatype event =
    PushData "byte list"
  | ElementWarning de265_error
  | ElementError stream_error
  | Negotiate int int "(int \<times> int) option"
  | HaveFrame int int
  | FinishFrame "byte list"

text \<open>
  The fields of \<^verbatim>\<open>GstLibde265Dec\<close> the callbacks use, for a started decoder
  (\<open>ctx\<close> is not \<^verbatim>\<open>NULL\<close> between \<^verbatim>\<open>start\<close> and \<^verbatim>\<open>stop\<close>), and the events so far.
\<close>

record 'i GstLibde265Dec =
  ctx :: "'i de265_decoder_context"
  width :: int
  height :: int
  buffer_full :: bool
  mode :: GstLibde265DecMode
  fps_n :: int
  fps_d :: int
  posted :: "event list"

subsection \<open>flush\<close>

text \<open>
  \<^verbatim>\<open>
  do {
    img = de265_get_next_picture (dec->ctx);
  } while (img != NULL);
  dec->buffer_full = 0;
  \<close>
\<close>

function flush_loop :: "'i de265_decoder_context \<Rightarrow> 'i de265_decoder_context" where
  "flush_loop c =
     (case de265_get_next_picture c of
        (img, c') \<Rightarrow> if img \<noteq> None then flush_loop c' else c')"
  by pat_completeness auto
termination
  by (relation "measure (\<lambda>c. length (pictures c))")
     (auto simp: de265_get_next_picture_def split: list.splits)

declare flush_loop.simps [simp del]

definition gst_libde265_dec_flush :: "'i GstLibde265Dec \<Rightarrow> bool \<times> 'i GstLibde265Dec" where
  "gst_libde265_dec_flush dec = (True, dec\<lparr>ctx := flush_loop (ctx dec), buffer_full := False\<rparr>)"

subsection \<open>handle_frame\<close>

text \<open>
  \<^verbatim>\<open>memcpy (dest, src, n)\<close> at offset \<open>off\<close> of the destination buffer; \<open>n\<close> is an
  \<open>int\<close> product that becomes a \<open>size_t\<close>, so that a negative one is a count no
  buffer holds. Reading past the source or writing past the destination is
  \<open>OutOfBounds\<close>. The product \<open>height * stride\<close> is taken in the integers; it is the
  product of the code as long as it stays in the range of \<open>int\<close>.
\<close>

definition memcpy :: "byte list \<Rightarrow> nat \<Rightarrow> byte list \<Rightarrow> int \<Rightarrow> fault + byte list" where
  "memcpy dest off src n =
     (if 0 \<le> n \<and> nat n \<le> length src \<and> off + nat n \<le> length dest
      then Inr (take off dest @ take (nat n) src @ drop (off + nat n) dest)
      else Inl OutOfBounds)"

text \<open>
  \<^verbatim>\<open>
  for (plane = 0; plane < 3; plane++) {
    int stride;
    int height = de265_get_image_height (img, plane);
    const uint8_t *src = de265_get_image_plane (img, plane, &stride);
    memcpy (dest, src, height * stride);
    dest += (height * stride);
  }
  \<close>
  The loop runs over the plane numbers it is given; \<open>dest\<close> is the buffer and the
  offset of the pointer in it.
\<close>

fun copy_planes ::
  "de265_image \<Rightarrow> nat list \<Rightarrow> byte list \<Rightarrow> nat \<Rightarrow> fault + (byte list \<times> nat)" where
  "copy_planes img [] dest off = Inr (dest, off)"
| "copy_planes img (plane # rest) dest off =
     (let height = de265_get_image_height img plane;
          (src, stride) = de265_get_image_plane img plane
      in case memcpy dest off src (height * stride) of
           Inl f \<Rightarrow> Inl f
         | Inr dest' \<Rightarrow> copy_planes img rest dest' (off + nat (height * stride)))"

definition gst_libde265_dec_handle_frame ::
  "framework \<Rightarrow> 'i GstLibde265Dec \<Rightarrow> fault + (GstFlowReturn \<times> 'i GstLibde265Dec)" where
  "gst_libde265_dec_handle_frame env dec =
     (case de265_get_next_picture (ctx dec) of
        (None, c) \<Rightarrow> Inr (GST_FLOW_OK, dec\<lparr>ctx := c\<rparr>)
      | (Some img, c) \<Rightarrow>
          if alloc_ret env \<noteq> GST_FLOW_OK then Inr (alloc_ret env, dec\<lparr>ctx := c\<rparr>)
          else if \<not> output_map_ok env then Inr (GST_FLOW_ERROR, dec\<lparr>ctx := c\<rparr>)
          else (case copy_planes img [0, 1, 2] (output_buffer env) 0 of
                  Inl f \<Rightarrow> Inl f
                | Inr (dest, off) \<Rightarrow>
                    Inr (finish_ret env,
                         dec\<lparr>ctx := c, posted := posted dec @ [FinishFrame dest]\<rparr>)))"

subsection \<open>image_available\<close>

text \<open>
  Modelled from the spec: \<^verbatim>\<open>gst_video_decoder_have_frame\<close> belongs to the GStreamer
  base class, whose code is not in the repository. Sections 4.3 and 4.4 have a
  pending picture assembled and emitted at this point: the base class hands the frame
  to the element's \<^verbatim>\<open>handle_frame\<close> and returns its result.
\<close>

definition gst_video_decoder_have_frame ::
  "framework \<Rightarrow> 'i GstLibde265Dec \<Rightarrow> fault + (GstFlowReturn \<times> 'i GstLibde265Dec)" where
  "gst_video_decoder_have_frame env dec = gst_libde265_dec_handle_frame env dec"

text \<open>
  \<^verbatim>\<open>_gst_libde265_image_available\<close>: a picture whose width or height differs from the
  recorded one sets the output state (I420, width, height; the frame rate of the
  element when \<open>fps_n\<close> is positive), negotiates and records the new size; then
  \<^verbatim>\<open>gst_video_decoder_have_frame\<close>. The code asserts that the output state exists
  and does not look at the result of \<^verbatim>\<open>gst_video_decoder_negotiate\<close>.
\<close>

definition gst_libde265_image_available ::
  "framework \<Rightarrow> 'i GstLibde265Dec \<Rightarrow> de265_image
     \<Rightarrow> fault + (GstFlowReturn \<times> 'i GstLibde265Dec)" where
  "gst_libde265_image_available env dec img =
     (let w = de265_get_image_width img 0;
          h = de265_get_image_height img 0;
          dec1 = (if w \<noteq> width dec \<or> h \<noteq> height dec
                  then dec\<lparr>posted := posted dec @
                             [Negotiate w h
                                (if fps_n dec > 0 then Some (fps_n dec, fps_d dec) else None)],
                           width := w, height := h\<rparr>
                  else dec)
      in gst_video_decoder_have_frame env (dec1\<lparr>posted := posted dec1 @ [HaveFrame w h]\<rparr>))"

subsection \<open>parse\<close>

text \<open>
  \<^verbatim>\<open>
  while ((ret = de265_get_warning (dec->ctx)) != DE265_OK) {
    GST_ELEMENT_WARNING (decoder, STREAM, DECODE, ...);
  }
  \<close>
\<close>

function drain_warnings :: "'i GstLibde265Dec \<Rightarrow> 'i GstLibde265Dec" where
  "drain_warnings dec =
     (case de265_get_warning (ctx dec) of
        (ret, c) \<Rightarrow>
          if ret \<noteq> DE265_OK
          then drain_warnings (dec\<lparr>ctx := c, posted := posted dec @ [ElementWarning ret]\<rparr>)
          else dec\<lparr>ctx := c\<rparr>)"
  by pat_completeness auto
termination
  by (relation "measure (\<lambda>dec. length (warnings (ctx dec)))")
     (auto simp: de265_get_warning_def split: list.splits)

declare drain_warnings.simps [simp del]

text \<open>
  The result of a callback that returns a flow value together with the adapter it
  leaves behind.
\<close>

definition with_adapter ::
  "byte list \<Rightarrow> fault + (GstFlowReturn \<times> 'i GstLibde265Dec)
     \<Rightarrow> fault + (GstFlowReturn \<times> byte list \<times> 'i GstLibde265Dec)" where
  "with_adapter adapter r =
     (case r of Inl f \<Rightarrow> Inl f | Inr (ret, dec) \<Rightarrow> Inr (ret, adapter, dec))"

text \<open>
  \<^verbatim>\<open>
  ret = de265_push_data (dec->ctx, frame_data, end_data - frame_data, 0, NULL);
  ...
  if (ret == DE265_OK) {
    ret = de265_decode (dec->ctx, NULL);
  }
  \<close>
\<close>

definition feed ::
  "'i engine \<Rightarrow> 'i de265_decoder_context \<Rightarrow> byte list
     \<Rightarrow> de265_error \<times> 'i de265_decoder_context" where
  "feed eng c frame_data =
     (case de265_push_data eng c frame_data of
        (ret, c1) \<Rightarrow> if ret = DE265_OK then de265_decode eng c1 else (ret, c1))"

text \<open>
  \<^verbatim>\<open>gst_libde265_dec_parse\<close> from the call of \<^verbatim>\<open>de265_push_data\<close> to its end: the
  feed, the \<^verbatim>\<open>switch\<close> on its result, the warnings and the pending picture. The bytes
  of the adapter have been taken, so the adapter is left empty. \<open>waiting\<close> says whether
  \<^verbatim>\<open>HAVE_DE265_ERROR_WAITING_FOR_INPUT_DATA\<close> is defined (libde265 from 0.5 on), which
  compiles the case of \<^verbatim>\<open>DE265_ERROR_WAITING_FOR_INPUT_DATA\<close> in.
\<close>

definition parse_decode ::
  "bool \<Rightarrow> 'i engine \<Rightarrow> framework \<Rightarrow> byte list \<Rightarrow> 'i GstLibde265Dec
     \<Rightarrow> fault + (GstFlowReturn \<times> byte list \<times> 'i GstLibde265Dec)" where
  "parse_decode waiting eng env frame_data dec0 =
     (case feed eng (ctx dec0) frame_data of
        (ret, c) \<Rightarrow>
          let dec = dec0\<lparr>ctx := c, posted := posted dec0 @ [PushData frame_data]\<rparr> in
          if ret = DE265_OK then
            (let dec = drain_warnings dec in
             case de265_peek_next_picture (ctx dec) of
               None \<Rightarrow> Inr (GST_VIDEO_DECODER_FLOW_NEED_DATA, [], dec)
             | Some img \<Rightarrow> with_adapter [] (gst_libde265_image_available env dec img))
          else if ret = DE265_ERROR_IMAGE_BUFFER_FULL then
            (let dec = dec\<lparr>buffer_full := True\<rparr> in
             case de265_peek_next_picture (ctx dec) of
               None \<Rightarrow> Inr (GST_VIDEO_DECODER_FLOW_NEED_DATA, [], dec)
             | Some img \<Rightarrow> with_adapter [] (gst_libde265_image_available env dec img))
          else if waiting \<and> ret = DE265_ERROR_WAITING_FOR_INPUT_DATA then
            Inr (GST_VIDEO_DECODER_FLOW_NEED_DATA, [], dec)
          else
            Inr (GST_FLOW_ERROR, [],
                 dec\<lparr>posted := posted dec @ [ElementError (ErrorWhileDecoding ret)]\<rparr>))"

text \<open>
  The block that replaces the length fields, with its check:
  \<^verbatim>\<open>
  if (dec->mode == GST_TYPE_LIBDE265_DEC_PACKETIZED) {
    ... the loop ...
    if (start_data > end_data) {
      GST_ELEMENT_ERROR (decoder, STREAM, DECODE,
          ("Overflow in input data, check data mode"), (NULL));
      return GST_FLOW_ERROR;
    }
  }
  \<close>
  \<open>None\<close> is the overflow, \<open>Some\<close> holds the bytes to push.
\<close>

definition reframe :: "GstLibde265DecMode \<Rightarrow> byte list \<Rightarrow> fault + byte list option" where
  "reframe m frame_data =
     (if m = GST_TYPE_LIBDE265_DEC_PACKETIZED then
        (case reframe_loop frame_data 0 0 of
           Inl f \<Rightarrow> Inl f
         | Inr (buf, start_data, n) \<Rightarrow>
             if start_data > int (length frame_data) then Inr None else Inr (Some buf))
      else Inr (Some frame_data))"

text \<open>
  \<^verbatim>\<open>gst_libde265_dec_parse\<close> from \<^verbatim>\<open>size = gst_adapter_available (adapter)\<close> on, that
  is after the check of the backlog flag. \<open>adapter\<close> holds the bytes available;
  \<^verbatim>\<open>gst_adapter_take_buffer (adapter, size)\<close> takes all of them.
\<close>

definition parse_feed ::
  "bool \<Rightarrow> 'i engine \<Rightarrow> framework \<Rightarrow> byte list \<Rightarrow> 'i GstLibde265Dec
     \<Rightarrow> fault + (GstFlowReturn \<times> byte list \<times> 'i GstLibde265Dec)" where
  "parse_feed waiting eng env adapter dec =
     (let size = length adapter in
      if size = 0 then Inr (GST_VIDEO_DECODER_FLOW_NEED_DATA, adapter, dec)
      else if \<not> input_map_ok env then Inr (GST_FLOW_ERROR, [], dec)
      else
        case reframe (mode dec) adapter of
          Inl f \<Rightarrow> Inl f
        | Inr None \<Rightarrow>
            Inr (GST_FLOW_ERROR, [],
                 dec\<lparr>posted := posted dec @ [ElementError OverflowInInputData]\<rparr>)
        | Inr (Some frame_data) \<Rightarrow> parse_decode waiting eng env frame_data dec)"

text \<open>
  \<^verbatim>\<open>
  if (dec->buffer_full) {
    if ((img = de265_peek_next_picture (dec->ctx)) != NULL) {
      return _gst_libde265_image_available (decoder, img);
    }
    dec->buffer_full = 0;
  }
  \<close>
\<close>

definition gst_libde265_dec_parse ::
  "bool \<Rightarrow> 'i engine \<Rightarrow> framework \<Rightarrow> byte list \<Rightarrow> 'i GstLibde265Dec
     \<Rightarrow> fault + (GstFlowReturn \<times> byte list \<times> 'i GstLibde265Dec)" where
  "gst_libde265_dec_parse waiting eng env adapter dec =
     (if buffer_full dec then
        (case de265_peek_next_picture (ctx dec) of
           Some img \<Rightarrow> with_adapter adapter (gst_libde265_image_available env dec img)
         | None \<Rightarrow> parse_feed waiting eng env adapter (dec\<lparr>buffer_full := False\<rparr>))
      else parse_feed waiting eng env adapter dec)"

section \<open>The words of the specification\<close>

text \<open>
  Section 6: a packetized buffer is a sequence of records, each a 4-byte big-endian
  unsigned length \<open>L\<close> followed by \<open>L\<close> bytes of payload. \<open>spec_frame\<close> splits a
  buffer into the payloads of its complete records and the bytes left over when
  fewer than four remain; a record that runs past the end of the buffer is the
  overrun of section 4.1.
\<close>

definition be32_length :: "byte list \<Rightarrow> nat" where
  "be32_length d =
     unat (d ! 0) * 16777216 + unat (d ! 1) * 65536 + unat (d ! 2) * 256 + unat (d ! 3)"

datatype framing = Records "byte list list" "byte list" | Overrun

function spec_frame :: "byte list \<Rightarrow> framing" where
  "spec_frame d =
     (if length d < 4 then Records [] d
      else if length d < 4 + be32_length d then Overrun
      else (case spec_frame (drop (4 + be32_length d) d) of
              Overrun \<Rightarrow> Overrun
            | Records ps t \<Rightarrow> Records (take (be32_length d) (drop 4 d) # ps) t))"
  by pat_completeness auto
termination
  by (relation "measure length") auto

declare spec_frame.simps [simp del]

definition start_code :: "byte list" where
  "start_code = [0, 0, 0, 1]"

definition annexb :: "byte list list \<Rightarrow> byte list" where
  "annexb ps = concat (map (\<lambda>p. start_code @ p) ps)"

text \<open>
  Whether every length field that the walk of section 4.1 reads, the one of an
  overrunning record included, is below \<open>2\<^sup>3\<^sup>1 - 4\<close>, so that the step \<open>4 + L\<close> is a
  positive \<open>int\<close>.
\<close>

function lengths_fit_int :: "byte list \<Rightarrow> bool" where
  "lengths_fit_int d =
     (if length d < 4 then True
      else be32_length d < 2147483644
           \<and> (if length d < 4 + be32_length d then True
               else lengths_fit_int (drop (4 + be32_length d) d)))"
  by pat_completeness auto
termination
  by (relation "measure length") auto

declare lengths_fit_int.simps [simp del]



text \<open>
  Section 4.3: a picture whose width or height differs from the recorded output
  geometry calls for one renegotiation request, carrying the new width and height and
  the configured frame rate, if any; a picture of the recorded size calls for none.
\<close>

definition renegotiation :: "'i GstLibde265Dec \<Rightarrow> de265_image \<Rightarrow> event list" where
  "renegotiation dec img =
     (if de265_get_image_width img 0 \<noteq> width dec \<or> de265_get_image_height img 0 \<noteq> height dec
      then [Negotiate (de265_get_image_width img 0) (de265_get_image_height img 0)
              (if fps_n dec > 0 then Some (fps_n dec, fps_d dec) else None)]
      else [])"

text \<open>
  What \<^verbatim>\<open>_gst_libde265_image_available\<close> does when the engine holds a picture: the
  geometry is recorded (and negotiated when it changed), the frame is announced, the
  picture is pulled, and the output buffer is filled and finished unless the
  framework refuses the buffer.
\<close>

definition announced :: "'i GstLibde265Dec \<Rightarrow> de265_image \<Rightarrow> de265_image list \<Rightarrow> 'i GstLibde265Dec" where
  "announced dec img rest =
     dec\<lparr>ctx := (ctx dec)\<lparr>pictures := rest\<rparr>,
         width := de265_get_image_width img 0,
         height := de265_get_image_height img 0,
         posted := posted dec @ renegotiation dec img @
           [HaveFrame (de265_get_image_width img 0) (de265_get_image_height img 0)]\<rparr>"




text \<open>
  The frame rate a renegotiation request carries: the configured one, if positive.
\<close>

definition configured_rate :: "'i GstLibde265Dec \<Rightarrow> (int \<times> int) option" where
  "configured_rate dec = (if fps_n dec > 0 then Some (fps_n dec, fps_d dec) else None)"

text \<open>
  The geometry rule of sections 3 and 8, as a monitor that reads the events of a run.
  Its state is the recorded geometry and whether a renegotiation request has just
  been emitted. A request is accepted only when it changes the geometry, carries the
  configured frame rate and does not follow another request directly; the frame
  announced next must be the picture the request was made for. Every picture is
  announced under the geometry in force. The monitor answers \<open>None\<close> when the rule is
  broken and the final state otherwise.
\<close>

fun monitor ::
  "(int \<times> int) option \<Rightarrow> (int \<times> int) \<times> bool \<Rightarrow> event list \<Rightarrow> ((int \<times> int) \<times> bool) option" where
  "monitor f st [] = Some st"
| "monitor f (g, requested) (Negotiate w h f' # es) =
     (if \<not> requested \<and> (w, h) \<noteq> g \<and> f' = f then monitor f ((w, h), True) es else None)"
| "monitor f (g, requested) (HaveFrame w h # es) =
     (if (w, h) = g then monitor f (g, False) es else None)"
| "monitor f (g, requested) (e # es) =
     (if requested then None else monitor f (g, False) es)"

text \<open>
  A run of the decode loop: the framework calls \<^verbatim>\<open>parse\<close>, with its answers and the
  bytes in the adapter, or \<^verbatim>\<open>flush\<close>, in any order. A fault ends the run.
\<close>

datatype call = Parse framework "byte list" | Flush

fun run :: "bool \<Rightarrow> 'i engine \<Rightarrow> call list \<Rightarrow> 'i GstLibde265Dec \<Rightarrow> fault + 'i GstLibde265Dec" where
  "run waiting eng [] dec = Inr dec"
| "run waiting eng (Parse env adapter # calls) dec =
     (case gst_libde265_dec_parse waiting eng env adapter dec of
        Inl f \<Rightarrow> Inl f
      | Inr (ret, a, dec') \<Rightarrow> run waiting eng calls dec')"
| "run waiting eng (Flush # calls) dec = run waiting eng calls (snd (gst_libde265_dec_flush dec))"

text \<open>The events that surface a warning of the engine.\<close>

fun is_warning :: "event \<Rightarrow> bool" where
  "is_warning (ElementWarning w) = True"
| "is_warning e = False"

section \<open>Fixtures\<close>


definition tight_img :: de265_image where
  "tight_img =
     \<lparr>plane0 = \<lparr>plane_width = 2, plane_height = 2, plane_stride = 2,
                 plane_data = [1, 2, 3, 4]\<rparr>,
      plane1 = \<lparr>plane_width = 1, plane_height = 1, plane_stride = 1, plane_data = [5]\<rparr>,
      plane2 = \<lparr>plane_width = 1, plane_height = 1, plane_stride = 1, plane_data = [6]\<rparr>\<rparr>"

definition wide_img :: de265_image where
  "wide_img =
     \<lparr>plane0 = \<lparr>plane_width = 4, plane_height = 2, plane_stride = 4,
                 plane_data = [1, 2, 3, 4, 5, 6, 7, 8]\<rparr>,
      plane1 = \<lparr>plane_width = 2, plane_height = 1, plane_stride = 2, plane_data = [9, 10]\<rparr>,
      plane2 = \<lparr>plane_width = 2, plane_height = 1, plane_stride = 2, plane_data = [11, 12]\<rparr>\<rparr>"

definition granting :: framework where
  "granting =
     \<lparr>input_map_ok = True, alloc_ret = GST_FLOW_OK,
      output_buffer = [0, 0, 0, 0, 0, 0, 0, 0, 0, 0, 0, 0], output_map_ok = True,
      finish_ret = GST_FLOW_OK\<rparr>"

definition answering :: "de265_error \<Rightarrow> unit engine" where
  "answering ret =
     \<lparr>de265_push_data = (\<lambda>c frame_data. (DE265_OK, c)),
      de265_decode = (\<lambda>c. (ret, c))\<rparr>"

definition started :: "de265_image list \<Rightarrow> de265_error list \<Rightarrow> bool \<Rightarrow> unit GstLibde265Dec" where
  "started ps ws full =
     \<lparr>ctx = \<lparr>pictures = ps, warnings = ws, internal = ()\<rparr>,
      width = - 1, height = - 1, buffer_full = full,
      mode = GST_TYPE_LIBDE265_DEC_PACKETIZED, fps_n = 0, fps_d = 1, posted = []\<rparr>"

section \<open>Flushing\<close>

lemma flush_loop_empties: "flush_loop c = c\<lparr>pictures := []\<rparr>"
proof (induction "pictures c" arbitrary: c)
  case Nil
  then show ?case
    by (subst flush_loop.simps) (simp add: de265_get_next_picture_def flip: Nil)
next
  case (Cons img rest)
  from Cons(2) have "flush_loop c = flush_loop (c\<lparr>pictures := rest\<rparr>)"
    by (subst flush_loop.simps) (simp add: de265_get_next_picture_def flip: Cons(2))
  also have "\<dots> = c\<lparr>pictures := rest, pictures := []\<rparr>"
    by (rule Cons(1)) simp
  finally show ?case by simp
qed

text \<open>
  C8. Flushing twice in a row is flushing once: after the first call the backlog flag
  is cleared and the engine holds no pending picture, the second call changes nothing,
  and neither call emits a frame or any other event.
\<close>

theorem flush_idempotent:
  "snd (gst_libde265_dec_flush (snd (gst_libde265_dec_flush dec)))
     = snd (gst_libde265_dec_flush dec)
   \<and> \<not> buffer_full (snd (gst_libde265_dec_flush dec))
   \<and> pictures (ctx (snd (gst_libde265_dec_flush dec))) = []
   \<and> de265_peek_next_picture (ctx (snd (gst_libde265_dec_flush dec))) = None
   \<and> posted (snd (gst_libde265_dec_flush (snd (gst_libde265_dec_flush dec)))) = posted dec
   \<and> fst (gst_libde265_dec_flush dec)"
  by (simp add: gst_libde265_dec_flush_def flush_loop_empties de265_peek_next_picture_def)

section \<open>A pending picture\<close>

lemma image_available_eq:
  assumes "pictures (ctx dec) = p # rest"
  shows "gst_libde265_image_available env dec img =
     (if alloc_ret env \<noteq> GST_FLOW_OK then Inr (alloc_ret env, announced dec img rest)
      else if \<not> output_map_ok env then Inr (GST_FLOW_ERROR, announced dec img rest)
      else (case copy_planes p [0, 1, 2] (output_buffer env) 0 of
              Inl f \<Rightarrow> Inl f
            | Inr (dest, off) \<Rightarrow>
                Inr (finish_ret env,
                     (announced dec img rest)
                       \<lparr>posted := posted (announced dec img rest) @ [FinishFrame dest]\<rparr>)))"
  using assms
  by (simp add: gst_libde265_image_available_def gst_video_decoder_have_frame_def
        gst_libde265_dec_handle_frame_def de265_get_next_picture_def announced_def
        renegotiation_def Let_def split: sum.splits prod.splits)

lemma image_available_Inr:
  assumes "pictures (ctx dec) = p # rest"
    and "gst_libde265_image_available env dec img = Inr (ret, d)"
  shows "d = announced dec img rest \<or>
         (\<exists>dest. d = (announced dec img rest)
                    \<lparr>posted := posted (announced dec img rest) @ [FinishFrame dest]\<rparr>)"
  using assms(2) unfolding image_available_eq [OF assms(1)]
  by (auto split: if_splits sum.splits prod.splits)

section \<open>The parse cycle\<close>

text \<open>
  C7. A parse cycle that finds no bytes in the adapter, the backlog flag being clear
  or set with no picture pending, signals need-data: the flag is clear afterwards,
  the engine is left as it was and nothing is pushed or posted.
\<close>

theorem empty_chunk_needs_data:
  assumes "adapter = []"
    and "\<not> buffer_full dec \<or> pictures (ctx dec) = []"
  shows "gst_libde265_dec_parse waiting eng env adapter dec
           = Inr (GST_VIDEO_DECODER_FLOW_NEED_DATA, [], dec\<lparr>buffer_full := False\<rparr>)"
  using assms
  by (auto simp: gst_libde265_dec_parse_def parse_feed_def de265_peek_next_picture_def)

theorem empty_chunk_needs_data_witness:
  "gst_libde265_dec_parse True (answering DE265_OK) granting [] (started [] [] True)
     = Inr (GST_VIDEO_DECODER_FLOW_NEED_DATA, [], started [] [] False)"
  using empty_chunk_needs_data [of "[]" "started [] [] True" True "answering DE265_OK" granting]
  by (simp add: started_def)


lemma copy_planes_tight:
  "copy_planes tight_img [0, 1, 2] (output_buffer granting) 0
     = Inr ([1, 2, 3, 4, 5, 6, 0, 0, 0, 0, 0, 0], 6)"
  by (simp add: tight_img_def granting_def memcpy_def de265_get_image_height_def
        de265_get_image_plane_def image_channel_def)


section \<open>Warnings\<close>

lemma drain_warnings_eq:
  "drain_warnings dec =
     dec\<lparr>ctx := (ctx dec)\<lparr>warnings := tl (dropWhile (\<lambda>w. w \<noteq> DE265_OK) (warnings (ctx dec)))\<rparr>,
         posted := posted dec @
           map ElementWarning (takeWhile (\<lambda>w. w \<noteq> DE265_OK) (warnings (ctx dec)))\<rparr>"
proof (induction "warnings (ctx dec)" arbitrary: dec)
  case Nil
  then show ?case
    by (subst drain_warnings.simps) (simp add: de265_get_warning_def flip: Nil)
next
  case (Cons w ws)
  show ?case
  proof (cases "w = DE265_OK")
    case True
    then show ?thesis
      by (subst drain_warnings.simps) (simp add: de265_get_warning_def flip: Cons(2))
  next
    case False
    let ?dec' = "dec\<lparr>ctx := (ctx dec)\<lparr>warnings := ws\<rparr>, posted := posted dec @ [ElementWarning w]\<rparr>"
    from False have "drain_warnings dec = drain_warnings ?dec'"
      by (subst drain_warnings.simps) (simp add: de265_get_warning_def flip: Cons(2))
    also have "\<dots> = ?dec'\<lparr>ctx := (ctx ?dec')\<lparr>warnings := tl (dropWhile (\<lambda>w. w \<noteq> DE265_OK) ws)\<rparr>,
         posted := posted ?dec' @ map ElementWarning (takeWhile (\<lambda>w. w \<noteq> DE265_OK) ws)\<rparr>"
      using Cons(1) [of ?dec'] by simp
    finally show ?thesis using False by (simp flip: Cons(2))
  qed
qed

lemma drain_warnings_all:
  assumes "DE265_OK \<notin> set (warnings (ctx dec))"
  shows "drain_warnings dec =
     dec\<lparr>ctx := (ctx dec)\<lparr>warnings := []\<rparr>,
         posted := posted dec @ map ElementWarning (warnings (ctx dec))\<rparr>"
proof -
  from assms have tw: "takeWhile (\<lambda>w. w \<noteq> DE265_OK) (warnings (ctx dec)) = warnings (ctx dec)"
    and dw: "dropWhile (\<lambda>w. w \<noteq> DE265_OK) (warnings (ctx dec)) = []"
    by (auto simp: takeWhile_eq_all_conv)
  show ?thesis by (subst drain_warnings_eq) (simp only: tw dw list.sel)
qed

lemma announced_tail:
  "\<exists>tail. posted (announced dec img rest) = posted dec @ tail \<and> (\<forall>e\<in>set tail. \<not> is_warning e)"
  by (simp add: announced_def renegotiation_def)

lemma image_available_tail:
  assumes "pictures (ctx dec) = p # rest"
    and "gst_libde265_image_available env dec img = Inr (ret, d)"
  shows "ctx d = (ctx dec)\<lparr>pictures := rest\<rparr> \<and> buffer_full d = buffer_full dec
     \<and> (\<exists>tail. posted d = posted dec @ tail \<and> (\<forall>e\<in>set tail. \<not> is_warning e))"
  using image_available_Inr [OF assms] announced_tail [of dec img rest]
  by (auto simp: announced_def)

lemma reframe_one_empty_record:
  "reframe GST_TYPE_LIBDE265_DEC_PACKETIZED [0, 0, 0, 0] = Inr (Some [0, 0, 0, 1])"
  by (simp add: reframe_def reframe_loop.simps READ_BE32_def WRITE_BE32_start_code)

text \<open>
  C2, as stated, fails. The engine holds a warning and a picture and answers the feed
  with \<^verbatim>\<open>DE265_ERROR_IMAGE_BUFFER_FULL\<close>: the frame is announced and finished, no warning
  is posted and the warning is still queued when the cycle returns.
\<close>

theorem warnings_skipped_on_buffer_full:
  "feed (answering DE265_ERROR_IMAGE_BUFFER_FULL)
      (ctx (started [tight_img] [DE265_ERROR_OTHER 7] False)) [0, 0, 0, 1]
     = (DE265_ERROR_IMAGE_BUFFER_FULL, ctx (started [tight_img] [DE265_ERROR_OTHER 7] False))
   \<and> gst_libde265_dec_parse True (answering DE265_ERROR_IMAGE_BUFFER_FULL) granting
        [0, 0, 0, 0] (started [tight_img] [DE265_ERROR_OTHER 7] False)
     = Inr (GST_FLOW_OK, [],
            (started [] [DE265_ERROR_OTHER 7] True)
              \<lparr>width := 2, height := 2,
               posted := [PushData [0, 0, 0, 1], Negotiate 2 2 None, HaveFrame 2 2,
                          FinishFrame [1, 2, 3, 4, 5, 6, 0, 0, 0, 0, 0, 0]]\<rparr>)"
proof -
  let ?dec = "started [tight_img] [DE265_ERROR_OTHER 7] False"
  have f: "feed (answering DE265_ERROR_IMAGE_BUFFER_FULL) (ctx ?dec) [0, 0, 0, 1]
      = (DE265_ERROR_IMAGE_BUFFER_FULL, ctx ?dec)"
    by (simp add: feed_def answering_def)
  let ?dec1 = "?dec\<lparr>ctx := ctx ?dec, posted := posted ?dec @ [PushData [0, 0, 0, 1]],
                    buffer_full := True\<rparr>"
  have p: "pictures (ctx ?dec1) = tight_img # []"
    by (simp add: started_def)
  have "gst_libde265_dec_parse True (answering DE265_ERROR_IMAGE_BUFFER_FULL) granting
        [0, 0, 0, 0] ?dec
      = with_adapter [] (gst_libde265_image_available granting ?dec1 tight_img)"
    using f reframe_one_empty_record
    by (simp add: gst_libde265_dec_parse_def parse_feed_def parse_decode_def
          de265_peek_next_picture_def started_def granting_def)
  also have "\<dots> = Inr (GST_FLOW_OK, [],
            (started [] [DE265_ERROR_OTHER 7] True)
              \<lparr>width := 2, height := 2,
               posted := [PushData [0, 0, 0, 1], Negotiate 2 2 None, HaveFrame 2 2,
                          FinishFrame [1, 2, 3, 4, 5, 6, 0, 0, 0, 0, 0, 0]]\<rparr>)"
    unfolding image_available_eq [OF p] using copy_planes_tight
    by (simp add: with_adapter_def granting_def announced_def renegotiation_def started_def
          tight_img_def de265_get_image_width_def de265_get_image_height_def
          image_channel_def)
  finally show ?thesis using f by simp
qed

text \<open>
  C2, amended. In a parse cycle whose feed returns \<^verbatim>\<open>DE265_OK\<close> the warnings are
  drained before anything else is done with the result: when the cycle returns, the
  queue (which holds no \<^verbatim>\<open>DE265_OK\<close>) is empty and every warning has been posted, in
  order, right after the push and before the events of the picture. When the feed
  returns \<^verbatim>\<open>DE265_ERROR_IMAGE_BUFFER_FULL\<close>, or
  \<^verbatim>\<open>DE265_ERROR_WAITING_FOR_INPUT_DATA\<close> where that case is compiled in, the queue of
  warnings is left as it is and no warning is posted.
\<close>

theorem warnings_drained_when_feed_ok:
  assumes "feed eng (ctx dec) frame_data = (ret, c)"
    and "parse_decode waiting eng env frame_data dec = Inr (r, a, d)"
  shows "(ret = DE265_OK \<and> DE265_OK \<notin> set (warnings c) \<longrightarrow>
            warnings (ctx d) = []
          \<and> (\<exists>tail. posted d = posted dec @ PushData frame_data
                         # map ElementWarning (warnings c) @ tail
                \<and> (\<forall>e\<in>set tail. \<not> is_warning e)))
       \<and> (ret = DE265_ERROR_IMAGE_BUFFER_FULL
            \<or> (waiting \<and> ret = DE265_ERROR_WAITING_FOR_INPUT_DATA) \<longrightarrow>
            warnings (ctx d) = warnings c
          \<and> (\<exists>tail. posted d = posted dec @ PushData frame_data # tail
                \<and> (\<forall>e\<in>set tail. \<not> is_warning e)))"
proof (rule conjI; rule impI)
  assume ok: "ret = DE265_OK \<and> DE265_OK \<notin> set (warnings c)"
  let ?dec0 = "dec\<lparr>ctx := c, posted := posted dec @ [PushData frame_data]\<rparr>"
  let ?dec1 = "dec\<lparr>ctx := c\<lparr>warnings := []\<rparr>,
                   posted := posted dec @ PushData frame_data # map ElementWarning (warnings c)\<rparr>"
  have dr: "drain_warnings ?dec0 = ?dec1"
    using ok by (subst drain_warnings_all) simp_all
  have pd: "parse_decode waiting eng env frame_data dec =
      (case pictures c of
         [] \<Rightarrow> Inr (GST_VIDEO_DECODER_FLOW_NEED_DATA, [], ?dec1)
       | img # rest \<Rightarrow> with_adapter [] (gst_libde265_image_available env ?dec1 img))"
    using ok assms(1) dr
    by (simp add: parse_decode_def de265_peek_next_picture_def split: list.splits)
  show "warnings (ctx d) = []
      \<and> (\<exists>tail. posted d = posted dec @ PushData frame_data
                     # map ElementWarning (warnings c) @ tail
            \<and> (\<forall>e\<in>set tail. \<not> is_warning e))"
  proof (cases "pictures c")
    case Nil
    with pd assms(2) have "d = ?dec1" by simp
    then show ?thesis by simp
  next
    case (Cons img rest)
    with pd assms(2) have "gst_libde265_image_available env ?dec1 img = Inr (r, d)"
      by (auto simp: with_adapter_def split: sum.splits)
    moreover have "pictures (ctx ?dec1) = img # rest" using Cons by simp
    ultimately show ?thesis
      using image_available_tail [of ?dec1 img rest env img r d] by auto
  qed
next
  assume full: "ret = DE265_ERROR_IMAGE_BUFFER_FULL
      \<or> (waiting \<and> ret = DE265_ERROR_WAITING_FOR_INPUT_DATA)"
  let ?dec0 = "dec\<lparr>ctx := c, posted := posted dec @ [PushData frame_data]\<rparr>"
  show "warnings (ctx d) = warnings c
      \<and> (\<exists>tail. posted d = posted dec @ PushData frame_data # tail
            \<and> (\<forall>e\<in>set tail. \<not> is_warning e))"
  proof (cases "ret = DE265_ERROR_IMAGE_BUFFER_FULL")
    case True
    let ?dec1 = "?dec0\<lparr>buffer_full := True\<rparr>"
    have pd: "parse_decode waiting eng env frame_data dec =
        (case pictures c of
           [] \<Rightarrow> Inr (GST_VIDEO_DECODER_FLOW_NEED_DATA, [], ?dec1)
         | img # rest \<Rightarrow> with_adapter [] (gst_libde265_image_available env ?dec1 img))"
      using True assms(1)
      by (simp add: parse_decode_def de265_peek_next_picture_def split: list.splits)
    show ?thesis
    proof (cases "pictures c")
      case Nil
      with pd assms(2) have "d = ?dec1" by simp
      then show ?thesis by simp
    next
      case (Cons img rest)
      with pd assms(2) have "gst_libde265_image_available env ?dec1 img = Inr (r, d)"
        by (auto simp: with_adapter_def split: sum.splits)
      moreover have "pictures (ctx ?dec1) = img # rest" using Cons by simp
      ultimately show ?thesis
        using image_available_tail [of ?dec1 img rest env img r d] by auto
    qed
  next
    case False
    with full assms have "d = ?dec0"
      by (simp add: parse_decode_def)
    then show ?thesis by simp
  qed
qed

lemma parse_decode_ok_example:
  "parse_decode True (answering DE265_OK) granting [0, 0, 0, 1]
       (started [tight_img] [DE265_ERROR_OTHER 7] False)
     = Inr (GST_FLOW_OK, [],
            (started [] [] False)
              \<lparr>width := 2, height := 2,
               posted := [PushData [0, 0, 0, 1], ElementWarning (DE265_ERROR_OTHER 7),
                          Negotiate 2 2 None, HaveFrame 2 2,
                          FinishFrame [1, 2, 3, 4, 5, 6, 0, 0, 0, 0, 0, 0]]\<rparr>)"
proof -
  let ?dec = "started [tight_img] [DE265_ERROR_OTHER 7] False"
  let ?dec1 = "?dec\<lparr>ctx := (ctx ?dec)\<lparr>warnings := []\<rparr>,
                    posted := [PushData [0, 0, 0, 1], ElementWarning (DE265_ERROR_OTHER 7)]\<rparr>"
  have d: "drain_warnings (?dec\<lparr>posted := posted ?dec @ [PushData [0, 0, 0, 1]]\<rparr>)
      = ?dec1"
    by (subst drain_warnings_all) (simp_all add: started_def)
  have p: "pictures (ctx ?dec1) = tight_img # []"
    by (simp add: started_def)
  have "parse_decode True (answering DE265_OK) granting [0, 0, 0, 1] ?dec
      = with_adapter [] (gst_libde265_image_available granting ?dec1 tight_img)"
  proof -
    have "pictures (ctx ?dec) = [tight_img]" by (simp add: started_def)
    then show ?thesis
      unfolding parse_decode_def
      by (simp add: feed_def answering_def d de265_peek_next_picture_def Let_def)
  qed
  also have "\<dots> = Inr (GST_FLOW_OK, [],
            (started [] [] False)
              \<lparr>width := 2, height := 2,
               posted := [PushData [0, 0, 0, 1], ElementWarning (DE265_ERROR_OTHER 7),
                          Negotiate 2 2 None, HaveFrame 2 2,
                          FinishFrame [1, 2, 3, 4, 5, 6, 0, 0, 0, 0, 0, 0]]\<rparr>)"
    unfolding image_available_eq [OF p] using copy_planes_tight
    by (simp add: with_adapter_def granting_def announced_def renegotiation_def started_def
          tight_img_def de265_get_image_width_def de265_get_image_height_def
          image_channel_def)
  finally show ?thesis .
qed

lemma parse_decode_full_example:
  "parse_decode True (answering DE265_ERROR_IMAGE_BUFFER_FULL) granting [0, 0, 0, 1]
       (started [] [DE265_ERROR_OTHER 7] False)
     = Inr (GST_VIDEO_DECODER_FLOW_NEED_DATA, [],
            (started [] [DE265_ERROR_OTHER 7] True)\<lparr>posted := [PushData [0, 0, 0, 1]]\<rparr>)"
  by (simp add: parse_decode_def feed_def answering_def de265_peek_next_picture_def started_def)

theorem warnings_drained_when_feed_ok_witness:
  "(\<exists>r a d. parse_decode True (answering DE265_OK) granting [0, 0, 0, 1]
               (started [tight_img] [DE265_ERROR_OTHER 7] False) = Inr (r, a, d)
       \<and> warnings (ctx d) = []
       \<and> (\<exists>tail. posted d = PushData [0, 0, 0, 1] # ElementWarning (DE265_ERROR_OTHER 7) # tail
             \<and> (\<forall>e\<in>set tail. \<not> is_warning e)))
   \<and> (\<exists>r a d. parse_decode True (answering DE265_ERROR_IMAGE_BUFFER_FULL) granting [0, 0, 0, 1]
               (started [] [DE265_ERROR_OTHER 7] False) = Inr (r, a, d)
       \<and> warnings (ctx d) = [DE265_ERROR_OTHER 7]
       \<and> (\<exists>tail. posted d = PushData [0, 0, 0, 1] # tail
             \<and> (\<forall>e\<in>set tail. \<not> is_warning e)))"
proof (rule conjI)
  let ?dec = "started [tight_img] [DE265_ERROR_OTHER 7] False"
  have f: "feed (answering DE265_OK) (ctx ?dec) [0, 0, 0, 1] = (DE265_OK, ctx ?dec)"
    by (simp add: feed_def answering_def)
  have w: "DE265_OK = DE265_OK \<and> DE265_OK \<notin> set (warnings (ctx ?dec))"
    by (simp add: started_def)
  from warnings_drained_when_feed_ok [OF f parse_decode_ok_example] w
  have "warnings (ctx ((started [] [] False)
              \<lparr>width := 2, height := 2,
               posted := [PushData [0, 0, 0, 1], ElementWarning (DE265_ERROR_OTHER 7),
                          Negotiate 2 2 None, HaveFrame 2 2,
                          FinishFrame [1, 2, 3, 4, 5, 6, 0, 0, 0, 0, 0, 0]]\<rparr>)) = []"
    by blast
  then show "\<exists>r a d. parse_decode True (answering DE265_OK) granting [0, 0, 0, 1] ?dec = Inr (r, a, d)
       \<and> warnings (ctx d) = []
       \<and> (\<exists>tail. posted d = PushData [0, 0, 0, 1] # ElementWarning (DE265_ERROR_OTHER 7) # tail
             \<and> (\<forall>e\<in>set tail. \<not> is_warning e))"
    unfolding parse_decode_ok_example by simp
next
  let ?dec = "started [] [DE265_ERROR_OTHER 7] False"
  have f: "feed (answering DE265_ERROR_IMAGE_BUFFER_FULL) (ctx ?dec) [0, 0, 0, 1]
      = (DE265_ERROR_IMAGE_BUFFER_FULL, ctx ?dec)"
    by (simp add: feed_def answering_def)
  from warnings_drained_when_feed_ok [OF f parse_decode_full_example]
  have "warnings (ctx ((started [] [DE265_ERROR_OTHER 7] True)\<lparr>posted := [PushData [0, 0, 0, 1]]\<rparr>))
      = warnings (ctx ?dec)"
    by blast
  then show "\<exists>r a d. parse_decode True (answering DE265_ERROR_IMAGE_BUFFER_FULL) granting
               [0, 0, 0, 1] ?dec = Inr (r, a, d)
       \<and> warnings (ctx d) = [DE265_ERROR_OTHER 7]
       \<and> (\<exists>tail. posted d = PushData [0, 0, 0, 1] # tail
             \<and> (\<forall>e\<in>set tail. \<not> is_warning e))"
    unfolding parse_decode_full_example by (simp add: started_def)
qed

section \<open>The output frame\<close>

lemma memcpy_fits:
  assumes "0 \<le> n" "nat n \<le> length src" "off + nat n \<le> length dest"
  shows "memcpy dest off src n = Inr (take off dest @ take (nat n) src @ drop (off + nat n) dest)"
  using assms by (simp add: memcpy_def)







section \<open>Geometry and renegotiation\<close>

lemma monitor_append:
  "monitor f st (xs @ ys) = (case monitor f st xs of None \<Rightarrow> None | Some st' \<Rightarrow> monitor f st' ys)"
  by (induction f st xs rule: monitor.induct) auto

text \<open>\<open>follows dec d\<close>: \<open>d\<close> comes from \<open>dec\<close> by events the monitor accepts.\<close>

definition follows :: "'i GstLibde265Dec \<Rightarrow> 'i GstLibde265Dec \<Rightarrow> bool" where
  "follows dec d =
     (fps_n d = fps_n dec \<and> fps_d d = fps_d dec
      \<and> take (length (posted dec)) (posted d) = posted dec
      \<and> monitor (configured_rate dec) ((width dec, height dec), False)
            (drop (length (posted dec)) (posted d))
          = Some ((width d, height d), False))"

lemma follows_refl: "follows dec dec"
  by (simp add: follows_def)

lemma followsI:
  assumes "fps_n d = fps_n dec" "fps_d d = fps_d dec" "posted d = posted dec @ new"
    and "monitor (configured_rate dec) ((width dec, height dec), False) new
           = Some ((width d, height d), False)"
  shows "follows dec d"
  using assms by (simp add: follows_def)

lemma follows_trans:
  assumes "follows a b" "follows b c"
  shows "follows a c"
proof -
  from assms(1) obtain n1 where n1: "posted b = posted a @ n1"
    "monitor (configured_rate a) ((width a, height a), False) n1 = Some ((width b, height b), False)"
    and fb: "fps_n b = fps_n a" "fps_d b = fps_d a"
    unfolding follows_def by (metis append_take_drop_id)
  from assms(2) obtain n2 where n2: "posted c = posted b @ n2"
    "monitor (configured_rate b) ((width b, height b), False) n2 = Some ((width c, height c), False)"
    and fc: "fps_n c = fps_n b" "fps_d c = fps_d b"
    unfolding follows_def by (metis append_take_drop_id)
  have r: "configured_rate b = configured_rate a"
    using fb by (simp add: configured_rate_def)
  show ?thesis
  proof (rule followsI [where new = "n1 @ n2"])
    show "monitor (configured_rate a) ((width a, height a), False) (n1 @ n2)
        = Some ((width c, height c), False)"
      using n1(2) n2(2) r by (simp add: monitor_append)
  qed (use n1 n2 fb fc in simp_all)
qed

lemma follows_plain:
  assumes "\<forall>e\<in>set new. (\<forall>w h f. e \<noteq> Negotiate w h f) \<and> (\<forall>w h. e \<noteq> HaveFrame w h)"
    and "posted d = posted dec @ new" "width d = width dec" "height d = height dec"
    and "fps_n d = fps_n dec" "fps_d d = fps_d dec"
  shows "follows dec d"
proof -
  have "monitor f (g, False) new = Some (g, False)" for f g
    using assms(1)
  proof (induction new)
    case Nil
    then show ?case by simp
  next
    case (Cons e es)
    then show ?case by (cases e) auto
  qed
  with assms show ?thesis by (intro followsI [where new = new]) simp_all
qed

lemma follows_announced: "follows dec (announced dec img rest)"
  by (rule followsI [where new = "renegotiation dec img @
        [HaveFrame (de265_get_image_width img 0) (de265_get_image_height img 0)]"])
     (auto simp: announced_def renegotiation_def configured_rate_def)

lemma follows_image_available:
  assumes "pictures (ctx dec) = p # rest"
    and "gst_libde265_image_available env dec img = Inr (ret, d)"
  shows "follows dec d"
proof -
  let ?a = "announced dec img rest"
  from image_available_Inr [OF assms] consider "d = ?a"
    | dest where "d = ?a\<lparr>posted := posted ?a @ [FinishFrame dest]\<rparr>"
    by blast
  then show ?thesis
  proof cases
    case 1
    then show ?thesis by (simp add: follows_announced)
  next
    case 2
    have "follows ?a d"
      by (rule follows_plain [where new = "[FinishFrame dest]"]) (simp_all add: 2)
    with follows_announced show ?thesis by (rule follows_trans)
  qed
qed

lemma follows_after_peek:
  assumes "follows dec dec1"
    and "(case de265_peek_next_picture (ctx dec1) of
            None \<Rightarrow> Inr (GST_VIDEO_DECODER_FLOW_NEED_DATA, a0, dec1)
          | Some img \<Rightarrow> with_adapter a0 (gst_libde265_image_available env dec1 img))
         = Inr (r, a, d)"
  shows "follows dec d"
proof (cases "pictures (ctx dec1)")
  case Nil
  with assms(2) have "d = dec1" by (simp add: de265_peek_next_picture_def)
  with assms(1) show ?thesis by simp
next
  case (Cons img rest)
  with assms(2) have "gst_libde265_image_available env dec1 img = Inr (r, d)"
    by (auto simp: de265_peek_next_picture_def with_adapter_def split: sum.splits)
  with Cons have "follows dec1 d" by (rule follows_image_available)
  with assms(1) show ?thesis by (rule follows_trans)
qed

lemma follows_parse_decode:
  assumes "parse_decode waiting eng env frame_data dec = Inr (r, a, d)"
  shows "follows dec d"
proof -
  obtain ret c where f: "feed eng (ctx dec) frame_data = (ret, c)"
    by (cases "feed eng (ctx dec) frame_data")
  let ?dec0 = "dec\<lparr>ctx := c, posted := posted dec @ [PushData frame_data]\<rparr>"
  have f0: "follows dec ?dec0"
    by (rule follows_plain [where new = "[PushData frame_data]"]) simp_all
  consider (ok) "ret = DE265_OK" | (full) "ret = DE265_ERROR_IMAGE_BUFFER_FULL"
    | (wait) "waiting \<and> ret = DE265_ERROR_WAITING_FOR_INPUT_DATA"
    | (err) "ret \<noteq> DE265_OK" "ret \<noteq> DE265_ERROR_IMAGE_BUFFER_FULL"
        "\<not> (waiting \<and> ret = DE265_ERROR_WAITING_FOR_INPUT_DATA)"
    by blast
  then show ?thesis
  proof cases
    case ok
    let ?dec1 = "drain_warnings ?dec0"
    have "follows ?dec0 ?dec1"
      by (rule follows_plain [where new = "map ElementWarning
              (takeWhile (\<lambda>w. w \<noteq> DE265_OK) (warnings c))"])
         (auto simp: drain_warnings_eq)
    with f0 have "follows dec ?dec1" by (rule follows_trans)
    moreover from assms f ok
    have "(case de265_peek_next_picture (ctx ?dec1) of
            None \<Rightarrow> Inr (GST_VIDEO_DECODER_FLOW_NEED_DATA, [], ?dec1)
          | Some img \<Rightarrow> with_adapter [] (gst_libde265_image_available env ?dec1 img))
         = Inr (r, a, d)"
      by (simp add: parse_decode_def Let_def)
    ultimately show ?thesis by (rule follows_after_peek)
  next
    case full
    let ?dec1 = "?dec0\<lparr>buffer_full := True\<rparr>"
    have "follows dec ?dec1"
      by (rule follows_plain [where new = "[PushData frame_data]"]) simp_all
    moreover from assms f full
    have "(case de265_peek_next_picture (ctx ?dec1) of
            None \<Rightarrow> Inr (GST_VIDEO_DECODER_FLOW_NEED_DATA, [], ?dec1)
          | Some img \<Rightarrow> with_adapter [] (gst_libde265_image_available env ?dec1 img))
         = Inr (r, a, d)"
      by (simp add: parse_decode_def Let_def)
    ultimately show ?thesis by (rule follows_after_peek)
  next
    case wait
    with assms f have "d = ?dec0" by (auto simp: parse_decode_def)
    with f0 show ?thesis by simp
  next
    case err
    with assms f have "d = ?dec0\<lparr>posted := posted ?dec0 @ [ElementError (ErrorWhileDecoding ret)]\<rparr>"
      by (auto simp: parse_decode_def)
    then have "follows ?dec0 d"
      by (intro follows_plain [where new = "[ElementError (ErrorWhileDecoding ret)]"]) simp_all
    with f0 show ?thesis by (rule follows_trans)
  qed
qed

lemma follows_parse_feed:
  assumes "parse_feed waiting eng env adapter dec = Inr (r, a, d)"
  shows "follows dec d"
proof (cases "adapter = [] \<or> \<not> input_map_ok env")
  case True
  with assms have "d = dec" by (auto simp: parse_feed_def split: if_splits)
  then show ?thesis by (simp add: follows_refl)
next
  case False
  show ?thesis
  proof (cases "reframe (mode dec) adapter")
    case (Inl f)
    with assms False show ?thesis by (simp add: parse_feed_def)
  next
    case (Inr res)
    show ?thesis
    proof (cases res)
      case None
      with assms False Inr
      have "d = dec\<lparr>posted := posted dec @ [ElementError OverflowInInputData]\<rparr>"
        by (auto simp: parse_feed_def)
      then show ?thesis
        by (intro follows_plain [where new = "[ElementError OverflowInInputData]"]) simp_all
    next
      case (Some frame_data)
      with assms False Inr
      have "parse_decode waiting eng env frame_data dec = Inr (r, a, d)"
        by (simp add: parse_feed_def)
      then show ?thesis by (rule follows_parse_decode)
    qed
  qed
qed

lemma follows_parse:
  assumes "gst_libde265_dec_parse waiting eng env adapter dec = Inr (r, a, d)"
  shows "follows dec d"
proof (cases "buffer_full dec")
  case False
  with assms show ?thesis
    by (auto simp: gst_libde265_dec_parse_def intro: follows_parse_feed)
next
  case True
  let ?dec1 = "dec\<lparr>buffer_full := False\<rparr>"
  show ?thesis
  proof (cases "pictures (ctx dec)")
    case Nil
    with assms True have "parse_feed waiting eng env adapter ?dec1 = Inr (r, a, d)"
      by (simp add: gst_libde265_dec_parse_def de265_peek_next_picture_def)
    then have "follows ?dec1 d" by (rule follows_parse_feed)
    moreover have "follows dec ?dec1"
      by (rule follows_plain [where new = "[]"]) simp_all
    ultimately show ?thesis by (rule follows_trans [rotated])
  next
    case (Cons img rest)
    with assms True have "gst_libde265_image_available env dec img = Inr (r, d)"
      by (auto simp: gst_libde265_dec_parse_def de265_peek_next_picture_def with_adapter_def
            split: sum.splits)
    with Cons show ?thesis by (rule follows_image_available)
  qed
qed

lemma follows_flush: "follows dec (snd (gst_libde265_dec_flush dec))"
  by (rule follows_plain [where new = "[]"]) (simp_all add: gst_libde265_dec_flush_def)

text \<open>
  C6. Along every run of parse cycles and flushes the events obey the geometry rule:
  the recorded width and height change only at a renegotiation request, a request is
  emitted only for a picture whose width or height differs from the recorded ones,
  carries the picture's width and height and the configured frame rate, and comes
  directly before the announcement of that picture; so no request lies between two
  consecutive pictures of the same size and exactly one lies before a picture whose
  size differs from the one before.
\<close>

theorem geometry_changes_renegotiated:
  assumes "run waiting eng calls dec = Inr dec'"
  shows "take (length (posted dec)) (posted dec') = posted dec
       \<and> monitor (configured_rate dec) ((width dec, height dec), False)
            (drop (length (posted dec)) (posted dec'))
          = Some ((width dec', height dec'), False)"
proof -
  have "follows dec dec'"
    using assms
  proof (induction calls arbitrary: dec)
    case Nil
    then show ?case by (simp add: follows_refl)
  next
    case (Cons c calls)
    show ?case
    proof (cases c)
      case (Parse env adapter)
      with Cons.prems obtain ret a d
        where p: "gst_libde265_dec_parse waiting eng env adapter dec = Inr (ret, a, d)"
          and r: "run waiting eng calls d = Inr dec'"
        by (auto split: sum.splits)
      from follows_parse [OF p] Cons.IH [OF r] show ?thesis by (rule follows_trans)
    next
      case Flush
      with Cons.prems have "run waiting eng calls (snd (gst_libde265_dec_flush dec)) = Inr dec'"
        by simp
      from follows_flush Cons.IH [OF this] show ?thesis by (rule follows_trans)
    qed
  qed
  then show ?thesis by (simp add: follows_def)
qed

lemma run_example:
  "run True (answering DE265_OK)
       [Parse granting [0, 0, 0, 0], Parse granting [0, 0, 0, 0], Parse granting [0, 0, 0, 0]]
       (started [tight_img, tight_img, wide_img] [] False)
     = Inr ((started [] [] False)
              \<lparr>width := 4, height := 2,
               posted :=
                 [PushData [0, 0, 0, 1], Negotiate 2 2 None, HaveFrame 2 2,
                  FinishFrame [1, 2, 3, 4, 5, 6, 0, 0, 0, 0, 0, 0],
                  PushData [0, 0, 0, 1], HaveFrame 2 2,
                  FinishFrame [1, 2, 3, 4, 5, 6, 0, 0, 0, 0, 0, 0],
                  PushData [0, 0, 0, 1], Negotiate 4 2 None, HaveFrame 4 2,
                  FinishFrame [1, 2, 3, 4, 5, 6, 7, 8, 9, 10, 11, 12]]\<rparr>)"
proof -
  have t: "copy_planes tight_img [0, Suc 0, 2] [0, 0, 0, 0, 0, 0, 0, 0, 0, 0, 0, 0] 0
      = Inr ([1, 2, 3, 4, 5, 6, 0, 0, 0, 0, 0, 0], 6)"
    using copy_planes_tight by (simp add: granting_def del: copy_planes.simps)
  have w: "copy_planes wide_img [0, Suc 0, 2] [0, 0, 0, 0, 0, 0, 0, 0, 0, 0, 0, 0] 0
      = Inr ([1, 2, 3, 4, 5, 6, 7, 8, 9, 10, 11, 12], 12)"
    by (simp add: wide_img_def memcpy_def de265_get_image_height_def
          de265_get_image_plane_def image_channel_def)
  have g: "de265_get_image_width tight_img 0 = 2" "de265_get_image_height tight_img 0 = 2"
    "de265_get_image_width wide_img 0 = 4" "de265_get_image_height wide_img 0 = 2"
    by (simp_all add: tight_img_def wide_img_def de265_get_image_width_def
          de265_get_image_height_def image_channel_def)
  show ?thesis
    by (simp add: gst_libde265_dec_parse_def parse_feed_def reframe_one_empty_record
          parse_decode_def feed_def answering_def drain_warnings.simps de265_get_warning_def
          de265_peek_next_picture_def gst_libde265_image_available_def
          gst_video_decoder_have_frame_def gst_libde265_dec_handle_frame_def
          de265_get_next_picture_def with_adapter_def started_def granting_def t w g Let_def
          del: copy_planes.simps)
qed

theorem geometry_changes_renegotiated_witness:
  "run True (answering DE265_OK)
       [Parse granting [0, 0, 0, 0], Parse granting [0, 0, 0, 0], Parse granting [0, 0, 0, 0]]
       (started [tight_img, tight_img, wide_img] [] False)
     = Inr ((started [] [] False)
              \<lparr>width := 4, height := 2,
               posted :=
                 [PushData [0, 0, 0, 1], Negotiate 2 2 None, HaveFrame 2 2,
                  FinishFrame [1, 2, 3, 4, 5, 6, 0, 0, 0, 0, 0, 0],
                  PushData [0, 0, 0, 1], HaveFrame 2 2,
                  FinishFrame [1, 2, 3, 4, 5, 6, 0, 0, 0, 0, 0, 0],
                  PushData [0, 0, 0, 1], Negotiate 4 2 None, HaveFrame 4 2,
                  FinishFrame [1, 2, 3, 4, 5, 6, 7, 8, 9, 10, 11, 12]]\<rparr>)
   \<and> monitor None ((- 1, - 1), False)
        [PushData [0, 0, 0, 1], Negotiate 2 2 None, HaveFrame 2 2,
         FinishFrame [1, 2, 3, 4, 5, 6, 0, 0, 0, 0, 0, 0],
         PushData [0, 0, 0, 1], HaveFrame 2 2,
         FinishFrame [1, 2, 3, 4, 5, 6, 0, 0, 0, 0, 0, 0],
         PushData [0, 0, 0, 1], Negotiate 4 2 None, HaveFrame 4 2,
         FinishFrame [1, 2, 3, 4, 5, 6, 7, 8, 9, 10, 11, 12]]
       = Some ((4, 2), False)"
  using geometry_changes_renegotiated [OF run_example] run_example
  by (simp add: started_def configured_rate_def)

section \<open>Reframing\<close>

text \<open>
  However the loop ends, it ends: before the first byte of the buffer (a fault), or at
  an offset where fewer than four bytes remain or that lies past the end, with a
  buffer as long as the one it started from.
\<close>

lemma reframe_loop_ends:
  "reframe_loop buf start_data n = Inl OutOfBounds
   \<or> (\<exists>buf' start_data' n'. reframe_loop buf start_data n = Inr (buf', start_data', n')
         \<and> int (length buf) < start_data' + 4 \<and> length buf' = length buf)"
proof (induction buf start_data n rule: reframe_loop.induct)
  case (1 buf start_data n)
  show ?case
  proof (cases "start_data + 4 \<le> int (length buf)")
    case False
    then show ?thesis by (subst reframe_loop.simps) simp
  next
    case True
    show ?thesis
    proof (cases "start_data < 0")
      case neg: True
      with True show ?thesis by (subst reframe_loop.simps) simp
    next
      case False
      with True "1.IH" show ?thesis
        by (subst (1 2) reframe_loop.simps) simp
    qed
  qed
qed

text \<open>
  C9: the code at the buffer \<open>FF FF FF F0\<close>. The length field is read as \<open>-16\<close>, the
  pointer moves to 12 bytes before the buffer, where the condition of the loop still
  holds; the next iteration reads and writes outside the buffer.
\<close>

theorem negative_length_leaves_buffer:
  "reframe_loop [255, 255, 255, 240] 0 0 = Inl OutOfBounds
   \<and> sint (4 + READ_BE32 [255, 255, 255, 240] 0) = - 12
   \<and> gst_libde265_dec_parse True (answering DE265_OK) granting [255, 255, 255, 240]
        (started [] [] False) = Inl OutOfBounds"
proof -
  have r: "READ_BE32 [255, 255, 255, 240] 0 = 4294967280"
    by (simp add: READ_BE32_def)
  have s: "sint (4 + 4294967280 :: 32 word) = - 12"
    by simp
  have l: "reframe_loop [255, 255, 255, 240] 0 0 = Inl OutOfBounds"
    by (simp add: reframe_loop.simps r s)
  then show ?thesis
    by (simp add: r gst_libde265_dec_parse_def parse_feed_def reframe_def started_def
          granting_def)
qed

text \<open>
  C3: the code at the buffer \<open>FF FF FF FC 00 00 00 00 00\<close>, whose first record
  announces 4294967292 bytes of payload where five follow. The length field is read
  as \<open>-4\<close>: the pointer stays, the marker just written is read as the length 1, and
  the walk ends at the end of the buffer. No overflow is reported and the nine bytes
  are pushed to the engine.
\<close>

theorem overrun_fed_to_engine:
  "spec_frame [255, 255, 255, 252, 0, 0, 0, 0, 0] = Overrun
   \<and> reframe GST_TYPE_LIBDE265_DEC_PACKETIZED [255, 255, 255, 252, 0, 0, 0, 0, 0]
       = Inr (Some [0, 0, 0, 1, 0, 0, 0, 0, 1])
   \<and> gst_libde265_dec_parse True (answering DE265_OK) granting
        [255, 255, 255, 252, 0, 0, 0, 0, 0] (started [] [] False)
       = Inr (GST_VIDEO_DECODER_FLOW_NEED_DATA, [],
              (started [] [] False)\<lparr>posted := [PushData [0, 0, 0, 1, 0, 0, 0, 0, 1]]\<rparr>)"
proof -
  have o: "spec_frame [255, 255, 255, 252, 0, 0, 0, 0, 0] = Overrun"
    by (subst spec_frame.simps) (simp add: be32_length_def)
  have l: "reframe_loop [255, 255, 255, 252, 0, 0, 0, 0, 0] 0 0
      = Inr ([0, 0, 0, 1, 0, 0, 0, 0, 1], 9, 3)"
    by (simp add: reframe_loop.simps READ_BE32_def WRITE_BE32_start_code)
  then have r: "reframe GST_TYPE_LIBDE265_DEC_PACKETIZED [255, 255, 255, 252, 0, 0, 0, 0, 0]
      = Inr (Some [0, 0, 0, 1, 0, 0, 0, 0, 1])"
    by (simp add: reframe_def)
  have "gst_libde265_dec_parse True (answering DE265_OK) granting
        [255, 255, 255, 252, 0, 0, 0, 0, 0] (started [] [] False)
       = Inr (GST_VIDEO_DECODER_FLOW_NEED_DATA, [],
              (started [] [] False)\<lparr>posted := [PushData [0, 0, 0, 1, 0, 0, 0, 0, 1]]\<rparr>)"
    by (simp add: gst_libde265_dec_parse_def parse_feed_def parse_decode_def feed_def
          answering_def drain_warnings.simps de265_get_warning_def
          de265_peek_next_picture_def started_def granting_def
          r [unfolded started_def, simplified])
  with o r show ?thesis by simp
qed

subsection \<open>Well-formed records\<close>

lemma spec_frame_short: "length d < 4 \<Longrightarrow> spec_frame d = Records [] d"
  by (subst spec_frame.simps) simp

lemma spec_frame_Records_Nil:
  assumes "spec_frame d = Records [] t"
  shows "length d < 4 \<and> t = d"
  using assms
  by (subst (asm) spec_frame.simps) (auto split: if_splits framing.splits)

lemma spec_frame_Records_Cons:
  assumes "spec_frame d = Records (p # ps) t"
  shows "4 + be32_length d \<le> length d \<and> p = take (be32_length d) (drop 4 d)
     \<and> length p = be32_length d
     \<and> spec_frame (drop (4 + be32_length d) d) = Records ps t"
  using assms
  by (subst (asm) spec_frame.simps) (auto split: if_splits framing.splits)

lemma unat_READ_BE32_append:
  assumes "4 \<le> length d"
  shows "unat (READ_BE32 (pre @ d) (length pre)) = be32_length d"
  using assms by (simp add: unat_READ_BE32 be32_length_def nth_append)

lemma WRITE_BE32_append:
  assumes "4 \<le> length d"
  shows "WRITE_BE32 (pre @ d) (length pre) 1 = pre @ start_code @ drop 4 d"
proof -
  from assms obtain a b c e rest where d: "d = a # b # c # e # rest"
    by (auto simp: numeral_eq_Suc Suc_le_length_iff)
  show ?thesis
    by (simp add: d WRITE_BE32_start_code start_code_def list_update_append)
qed

lemma annexb_Cons: "annexb (p # ps) = start_code @ p @ annexb ps"
  by (simp add: annexb_def)

text \<open>
  On records whose lengths fit the signed step, the loop visits the length field of
  every record, writes a start code over it and stops at the bytes left over.
\<close>

lemma reframe_loop_records:
  assumes "spec_frame d = Records ps t"
    and "\<forall>p\<in>set ps. length p < 2147483644"
  shows "reframe_loop (pre @ d) (int (length pre)) n
           = Inr (pre @ annexb ps @ t, int (length pre) + int (length d) - int (length t),
                  n + length ps)"
  using assms
proof (induction ps arbitrary: d pre n)
  case Nil
  then have "length d < 4" "t = d" by (auto dest: spec_frame_Records_Nil)
  then show ?case
    by (subst reframe_loop.simps) (simp add: annexb_def)
next
  case (Cons p ps)
  let ?L = "be32_length d"
  from spec_frame_Records_Cons [OF Cons.prems(1)]
  have len: "4 + ?L \<le> length d" and p: "p = take ?L (drop 4 d)" and lp: "length p = ?L"
    and rest: "spec_frame (drop (4 + ?L) d) = Records ps t"
    by blast+
  from Cons.prems(2) lp have small: "?L < 2147483644" by simp
  have four: "4 \<le> length d" using len by simp
  have u: "unat (READ_BE32 (pre @ d) (length pre)) = ?L"
    using four by (rule unat_READ_BE32_append)
  have step: "sint (4 + READ_BE32 (pre @ d) (length pre)) = 4 + int ?L"
    using sint_step_small [of "READ_BE32 (pre @ d) (length pre)"] small u by simp
  let ?pre' = "pre @ start_code @ p"
  have w: "WRITE_BE32 (pre @ d) (length pre) 1 = ?pre' @ drop (4 + ?L) d"
  proof -
    have dd: "drop ?L (drop 4 d) = drop (4 + ?L) d" by (simp add: add.commute)
    have "drop 4 d = p @ drop (4 + ?L) d"
      unfolding p dd [symmetric] by (simp only: append_take_drop_id)
    then show ?thesis by (simp add: WRITE_BE32_append [OF four])
  qed
  have lpre: "int (length ?pre') = int (length pre) + (4 + int ?L)"
    by (simp add: start_code_def lp)
  have "reframe_loop (pre @ d) (int (length pre)) n
      = reframe_loop (?pre' @ drop (4 + ?L) d) (int (length ?pre')) (Suc n)"
  proof -
    have c: "int (length pre) + 4 \<le> int (length (pre @ d))" using four by simp
    show ?thesis
      by (subst reframe_loop.simps) (simp add: c step w lpre del: length_append)
  qed
  also have "\<dots> = Inr (?pre' @ annexb ps @ t,
      int (length ?pre') + int (length (drop (4 + ?L) d)) - int (length t), Suc n + length ps)"
    using rest Cons.prems(2) by (intro Cons.IH) simp_all
  finally show ?case
    using len by (simp add: annexb_Cons start_code_def lp)
qed

lemma reframe_records:
  assumes "spec_frame d = Records ps t"
    and "\<forall>p\<in>set ps. length p < 2147483644"
  shows "reframe_loop d 0 0 = Inr (annexb ps @ t, int (length d) - int (length t), length ps)"
    and "reframe GST_TYPE_LIBDE265_DEC_PACKETIZED d = Inr (Some (annexb ps @ t))"
    and "length (annexb ps @ t) = length d"
proof -
  show l: "reframe_loop d 0 0 = Inr (annexb ps @ t, int (length d) - int (length t), length ps)"
    using reframe_loop_records [OF assms, of "[]" 0] by simp
  then show "reframe GST_TYPE_LIBDE265_DEC_PACKETIZED d = Inr (Some (annexb ps @ t))"
    by (simp add: reframe_def)
  from reframe_loop_ends [of d 0 0] l show "length (annexb ps @ t) = length d"
    by auto
qed

text \<open>
  A record of \<open>2\<^sup>3\<^sup>1\<close> payload bytes: its length field is read as the most negative
  \<open>int\<close>, and the pointer leaves the buffer at its start.
\<close>

lemma huge_record:
  assumes "length payload = 2147483648" and "length t < 4"
  shows "spec_frame (128 # 0 # 0 # 0 # payload @ t) = Records [payload] t"
    and "reframe_loop (128 # 0 # 0 # 0 # payload @ t) 0 0 = Inl OutOfBounds"
proof -
  let ?d = "128 # 0 # 0 # 0 # payload @ t"
  have b: "be32_length ?d = 2147483648"
    by (simp add: be32_length_def)
  have "spec_frame (drop (4 + be32_length ?d) ?d) = Records [] t"
    using assms by (simp add: b spec_frame_short)
  moreover have "take (be32_length ?d) (drop 4 ?d) = payload"
    using assms by (simp add: b)
  ultimately show "spec_frame ?d = Records [payload] t"
    using assms by (subst spec_frame.simps) (simp add: b)
  have r: "READ_BE32 ?d 0 = 2147483648"
    by (simp add: READ_BE32_def)
  have s: "sint (4 + 2147483648 :: 32 word) = - 2147483644"
    by simp
  have "reframe_loop ?d 0 0 = reframe_loop (WRITE_BE32 ?d 0 1) (- 2147483644) 1"
    by (subst reframe_loop.simps) (simp add: r s)
  also have "\<dots> = Inl OutOfBounds"
    by (subst reframe_loop.simps) simp
  finally show "reframe_loop ?d 0 0 = Inl OutOfBounds" .
qed

text \<open>
  C4, as stated, fails: the buffer \<open>80 00 00 00\<close> followed by \<open>2\<^sup>3\<^sup>1\<close> zero bytes is
  one record that ends the buffer exactly, and the loop leaves the buffer.
\<close>

theorem valid_huge_record_not_reframed:
  "spec_frame (128 # 0 # 0 # 0 # replicate 2147483648 0) = Records [replicate 2147483648 0] []
   \<and> reframe_loop (128 # 0 # 0 # 0 # replicate 2147483648 0) 0 0 = Inl OutOfBounds
   \<and> reframe GST_TYPE_LIBDE265_DEC_PACKETIZED (128 # 0 # 0 # 0 # replicate 2147483648 0)
       = Inl OutOfBounds"
  using huge_record [of "replicate 2147483648 0" "[]"] by (simp add: reframe_def)

text \<open>
  C4, amended. A buffer that is exactly a sequence of records, each with fewer than
  \<open>2\<^sup>3\<^sup>1 - 4\<close> bytes of payload, is rewritten in place: the loop ends at the end of
  the buffer after writing one start code per record, the buffer to push is the
  payloads with a start code before each, and it is as long as the buffer was.
\<close>

theorem valid_records_reframed:
  assumes "spec_frame frame_data = Records ps []"
    and "\<forall>p\<in>set ps. length p < 2147483644"
  shows "reframe_loop frame_data 0 0 = Inr (annexb ps, int (length frame_data), length ps)
       \<and> reframe GST_TYPE_LIBDE265_DEC_PACKETIZED frame_data = Inr (Some (annexb ps))
       \<and> length (annexb ps) = length frame_data"
  using reframe_records [OF assms] by simp

theorem valid_records_reframed_witness:
  "spec_frame [0, 0, 0, 2, 10, 11, 0, 0, 0, 0, 0, 0, 0, 1, 12] = Records [[10, 11], [], [12]] []
   \<and> reframe_loop [0, 0, 0, 2, 10, 11, 0, 0, 0, 0, 0, 0, 0, 1, 12] 0 0
       = Inr ([0, 0, 0, 1, 10, 11, 0, 0, 0, 1, 0, 0, 0, 1, 12], 15, 3)"
proof -
  have s: "spec_frame [0, 0, 0, 2, 10, 11, 0, 0, 0, 0, 0, 0, 0, 1, 12]
      = Records [[10, 11], [], [12]] []"
    by (simp add: spec_frame.simps be32_length_def)
  have "\<forall>p\<in>set [[10, 11], [], [12 :: byte]]. length p < 2147483644"
    by simp
  from valid_records_reframed [OF s this] s show ?thesis
    by (simp add: annexb_def start_code_def)
qed

subsection \<open>Bytes left over\<close>






subsection \<open>Records that overrun the buffer\<close>

text \<open>
  An overrunning record whose length field, like those before it, fits the signed step
  is detected: the walk ends past the end of the buffer, the overflow is reported and
  the engine is left alone.
\<close>

lemma reframe_loop_overrun:
  assumes "spec_frame d = Overrun" and "lengths_fit_int d"
  shows "\<exists>buf start_data m. reframe_loop (pre @ d) (int (length pre)) n = Inr (buf, start_data, m)
           \<and> int (length (pre @ d)) < start_data"
  using assms
proof (induction d arbitrary: pre n rule: spec_frame.induct)
  case (1 d)
  let ?L = "be32_length d"
  from "1.prems"(1) have four: "4 \<le> length d"
    by (subst (asm) spec_frame.simps) (auto split: if_splits)
  with "1.prems"(2) have small: "?L < 2147483644"
    by (subst (asm) lengths_fit_int.simps) (auto split: if_splits)
  have u: "unat (READ_BE32 (pre @ d) (length pre)) = ?L"
    using four by (rule unat_READ_BE32_append)
  have step: "sint (4 + READ_BE32 (pre @ d) (length pre)) = 4 + int ?L"
    using sint_step_small [of "READ_BE32 (pre @ d) (length pre)"] small u by simp
  have c: "int (length pre) + 4 \<le> int (length (pre @ d))" using four by simp
  have one: "reframe_loop (pre @ d) (int (length pre)) n
      = reframe_loop (pre @ start_code @ drop 4 d) (int (length pre) + (4 + int ?L)) (Suc n)"
    by (subst reframe_loop.simps)
       (simp add: c step WRITE_BE32_append [OF four] del: length_append)
  show ?case
  proof (cases "length d < 4 + ?L")
    case True
    then have "\<not> int (length pre) + (4 + int ?L) + 4 \<le> int (length (pre @ start_code @ drop 4 d))"
      using four by (simp add: start_code_def)
    then have "reframe_loop (pre @ start_code @ drop 4 d) (int (length pre) + (4 + int ?L)) (Suc n)
        = Inr (pre @ start_code @ drop 4 d, int (length pre) + (4 + int ?L), Suc n)"
      by (subst reframe_loop.simps) (simp del: length_append)
    with one True show ?thesis by simp
  next
    case False
    let ?p = "take ?L (drop 4 d)"
    let ?pre' = "pre @ start_code @ ?p"
    let ?d' = "drop (4 + ?L) d"
    from False four "1.prems"(1) have o: "spec_frame ?d' = Overrun"
      by (subst (asm) spec_frame.simps) (auto split: if_splits framing.splits)
    from False four "1.prems"(2) have f: "lengths_fit_int ?d'"
      by (subst (asm) lengths_fit_int.simps) (auto split: if_splits)
    have dd: "drop ?L (drop 4 d) = ?d'" by (simp add: add.commute)
    have "drop 4 d = ?p @ ?d'"
      unfolding dd [symmetric] by (simp only: append_take_drop_id)
    then have a: "pre @ start_code @ drop 4 d = ?pre' @ ?d'" by simp
    have lp: "int (length ?pre') = int (length pre) + (4 + int ?L)"
      using False by (simp add: start_code_def)
    have ld: "length (?pre' @ ?d') = length (pre @ d)"
      using four by (simp add: a [symmetric] start_code_def)
    from "1.IH" [OF _ _ o f, of ?pre' "Suc n"] False four
    obtain buf start_data m
      where "reframe_loop (?pre' @ ?d') (int (length ?pre')) (Suc n) = Inr (buf, start_data, m)"
        and "int (length (?pre' @ ?d')) < start_data"
      by auto
    with one show ?thesis
      unfolding a lp ld by auto
  qed
qed

lemma overrun_detected:
  assumes "spec_frame adapter = Overrun" and "lengths_fit_int adapter"
    and "mode dec = GST_TYPE_LIBDE265_DEC_PACKETIZED" and "input_map_ok env"
  shows "reframe (mode dec) adapter = Inr None"
    and "parse_feed waiting eng env adapter dec
           = Inr (GST_FLOW_ERROR, [],
                  dec\<lparr>posted := posted dec @ [ElementError OverflowInInputData]\<rparr>)"
proof -
  from reframe_loop_overrun [OF assms(1,2), of "[]" 0]
  show r: "reframe (mode dec) adapter = Inr None"
    by (auto simp: reframe_def assms(3))
  from assms(1) have "adapter \<noteq> []"
    by (subst (asm) spec_frame.simps) (auto split: if_splits)
  with r assms(4) show "parse_feed waiting eng env adapter dec
           = Inr (GST_FLOW_ERROR, [],
                  dec\<lparr>posted := posted dec @ [ElementError OverflowInInputData]\<rparr>)"
    by (simp add: parse_feed_def)
qed

text \<open>
  A negative length field shortly before the end of the buffer: the walk stops with
  three bytes remaining, which the start code written last has overwritten.
\<close>

lemma negative_length_rewrites_tail:
  "reframe GST_TYPE_LIBDE265_DEC_PACKETIZED [0, 0, 0, 1, 170, 255, 255, 255, 253]
     = Inr (Some [0, 0, 0, 1, 170, 0, 0, 0, 1])
   \<and> reframe_loop [0, 0, 0, 1, 170, 255, 255, 255, 253] 0 0
     = Inr ([0, 0, 0, 1, 170, 0, 0, 0, 1], 6, 2)"
proof -
  have "reframe_loop [0, 0, 0, 1, 170, 255, 255, 255, 253] 0 0
     = Inr ([0, 0, 0, 1, 170, 0, 0, 0, 1], 6, 2)"
    by (simp add: reframe_loop.simps READ_BE32_def WRITE_BE32_start_code)
  then show ?thesis by (simp add: reframe_def)
qed

end
